theory Spec2Isabelle
  imports Main "HOL-Library.Multiset"
begin

section \<open>Thrown values\<close>

text \<open>
  The library signals failure by throwing. A throw is modelled as the left injection of a
  sum type. \<open>Error msg\<close> is the generic \<^verbatim>\<open>new Error(msg)\<close> of the source, the three
  library classes carry what their constructors receive, and the last three constructors
  are the exceptions raised by the BigInt primitives and by property access themselves
  (not by a \<^verbatim>\<open>throw\<close> statement of the library).
\<close>

datatype exn =
    Error string
  | InvalidPrecisionError nat nat
  | RoundingRequiredError string
  | CurrencyMismatchError string string
  | SyntaxError
  | RangeError
  | TypeError

section \<open>BigInt division\<close>

text \<open>
  On BigInt operands \<^verbatim>\<open>/\<close> truncates toward zero and \<^verbatim>\<open>%\<close> takes the sign of the
  dividend. Both raise a RangeError on a zero divisor; the two functions below are the
  operators on a non-zero divisor, and every call site models the zero case itself.
\<close>

definition bigint_div :: "int \<Rightarrow> int \<Rightarrow> int" where
  "bigint_div a b = sgn a * sgn b * (\<bar>a\<bar> div \<bar>b\<bar>)"

definition bigint_mod :: "int \<Rightarrow> int \<Rightarrow> int" where
  "bigint_mod a b = sgn a * (\<bar>a\<bar> mod \<bar>b\<bar>)"

section \<open>Rounding (rounding/strategies.ts, rounding/index.ts)\<close>

datatype RoundingMode = HALF_UP | HALF_DOWN | HALF_EVEN | FLOOR | CEIL | TRUNCATE

text \<open>
  \<^verbatim>\<open>divideWithRounding(numerator, denominator, mode)\<close>. The enum is closed, so the
  \<^verbatim>\<open>default\<close> branch of the switch has no counterpart.
\<close>

definition divideWithRounding :: "int \<Rightarrow> int \<Rightarrow> RoundingMode \<Rightarrow> exn + int" where
  "divideWithRounding numerator denominator mode =
     (if denominator = 0 then Inl (Error ''Division by zero'')
      else
        let quotient = bigint_div numerator denominator;
            remainder = bigint_mod numerator denominator
        in if remainder = 0 then Inr quotient
           else
             let isNegativeResult = ((numerator < 0) \<noteq> (denominator < 0));
                 isPositiveResult = (\<not> isNegativeResult);
                 absRemainder = (if remainder < 0 then - remainder else remainder);
                 absDenominator = (if denominator < 0 then - denominator else denominator);
                 isHalf = (absRemainder * 2 = absDenominator);
                 isMoreThanHalf = (absRemainder * 2 > absDenominator)
             in (case mode of
                   FLOOR \<Rightarrow> Inr (if isPositiveResult then quotient else quotient - 1)
                 | CEIL \<Rightarrow> Inr (if isPositiveResult then quotient + 1 else quotient)
                 | HALF_UP \<Rightarrow>
                     if isMoreThanHalf \<or> isHalf
                     then Inr (if isPositiveResult then quotient + 1 else quotient - 1)
                     else Inr quotient
                 | HALF_DOWN \<Rightarrow>
                     if isMoreThanHalf
                     then Inr (if isPositiveResult then quotient + 1 else quotient - 1)
                     else Inr quotient
                 | HALF_EVEN \<Rightarrow>
                     if isMoreThanHalf
                     then Inr (if isPositiveResult then quotient + 1 else quotient - 1)
                     else if isHalf \<and> bigint_mod quotient 2 \<noteq> 0
                     then Inr (if isPositiveResult then quotient + 1 else quotient - 1)
                     else Inr quotient
                 | TRUNCATE \<Rightarrow> Inr quotient))"

subsection \<open>The policy table of the specification\<close>

text \<open>
  The table as the specification words it: the fractional remainder is classified by
  comparing \<open>2 * |r|\<close> with \<open>|denominator|\<close>, and \<open>away q\<close> moves \<open>q\<close> one unit away
  from zero, in the direction of the exact quotient's sign.
\<close>

datatype half_class = LessThanHalf | ExactlyHalf | MoreThanHalf

definition classify :: "int \<Rightarrow> int \<Rightarrow> half_class" where
  "classify r d =
     (if 2 * \<bar>r\<bar> < \<bar>d\<bar> then LessThanHalf
      else if 2 * \<bar>r\<bar> = \<bar>d\<bar> then ExactlyHalf else MoreThanHalf)"

definition positive_result :: "int \<Rightarrow> int \<Rightarrow> bool" where
  "positive_result n d = ((n < 0) = (d < 0))"

definition away :: "bool \<Rightarrow> int \<Rightarrow> int" where
  "away pos q = (if pos then q + 1 else q - 1)"

fun policy_table :: "RoundingMode \<Rightarrow> bool \<Rightarrow> half_class \<Rightarrow> int \<Rightarrow> int" where
  "policy_table FLOOR pos c q = (if pos then q else q - 1)"
| "policy_table CEIL pos c q = (if pos then q + 1 else q)"
| "policy_table TRUNCATE pos c q = q"
| "policy_table HALF_UP pos LessThanHalf q = q"
| "policy_table HALF_UP pos ExactlyHalf q = away pos q"
| "policy_table HALF_UP pos MoreThanHalf q = away pos q"
| "policy_table HALF_DOWN pos LessThanHalf q = q"
| "policy_table HALF_DOWN pos ExactlyHalf q = q"
| "policy_table HALF_DOWN pos MoreThanHalf q = away pos q"
| "policy_table HALF_EVEN pos LessThanHalf q = q"
| "policy_table HALF_EVEN pos ExactlyHalf q = (if odd q then away pos q else q)"
| "policy_table HALF_EVEN pos MoreThanHalf q = away pos q"

section \<open>Strings and BigInt literals\<close>

text \<open>
  A string is the list of its code units; the model covers code units below 256.
  \<open>regex_test p s\<close> is \<^verbatim>\<open>/[...]/.test(s)\<close> for a character class \<open>p\<close>: some
  character of \<open>s\<close> is in the class.
\<close>

definition is_digit :: "char \<Rightarrow> bool" where
  "is_digit c = (48 \<le> (of_char c :: nat) \<and> (of_char c :: nat) \<le> 57)"

definition regex_test :: "(char \<Rightarrow> bool) \<Rightarrow> string \<Rightarrow> bool" where
  "regex_test p s = list_ex p s"

text \<open>\<^verbatim>\<open>s.split(sep)\<close> for a one-character separator: never empty, one more part than
  separators.\<close>

fun split :: "char \<Rightarrow> string \<Rightarrow> string list" where
  "split sep [] = ['''']"
| "split sep (c # cs) =
     (if c = sep then [] # split sep cs
      else (case split sep cs of [] \<Rightarrow> [c # []] | p # ps \<Rightarrow> (c # p) # ps))"

text \<open>\<^verbatim>\<open>parts[i] || ""\<close>: a missing part (\<^verbatim>\<open>undefined\<close>) and an empty one both give
  the empty string.\<close>

definition part_or_empty :: "string list \<Rightarrow> nat \<Rightarrow> string" where
  "part_or_empty parts i = (if i < length parts then parts ! i else [])"

definition padEnd :: "string \<Rightarrow> nat \<Rightarrow> char \<Rightarrow> string" where
  "padEnd s n c = s @ replicate (n - length s) c"

text \<open>
  \<^verbatim>\<open>BigInt(s)\<close> on a string (StringToBigInt of ECMAScript): white space is trimmed, the
  empty string is \<open>0n\<close>, a decimal literal may carry one sign, a literal with prefix
  \<^verbatim>\<open>0x\<close>, \<^verbatim>\<open>0o\<close> or \<^verbatim>\<open>0b\<close> may not, and everything else is a SyntaxError.
\<close>

definition is_space :: "char \<Rightarrow> bool" where
  "is_space c = ((of_char c :: nat) \<in> {9, 10, 11, 12, 13, 32, 160})"

definition trim :: "string \<Rightarrow> string" where
  "trim s = rev (dropWhile is_space (rev (dropWhile is_space s)))"

definition digit_value :: "char \<Rightarrow> nat option" where
  "digit_value c =
     (let k = (of_char c :: nat) in
      if 48 \<le> k \<and> k \<le> 57 then Some (k - 48)
      else if 97 \<le> k \<and> k \<le> 102 then Some (k - 87)
      else if 65 \<le> k \<and> k \<le> 70 then Some (k - 55)
      else None)"

fun digits_acc :: "nat \<Rightarrow> int \<Rightarrow> string \<Rightarrow> int option" where
  "digits_acc radix acc [] = Some acc"
| "digits_acc radix acc (c # cs) =
     (case digit_value c of
        None \<Rightarrow> None
      | Some v \<Rightarrow> if v < radix then digits_acc radix (acc * int radix + int v) cs else None)"

definition parse_digits :: "nat \<Rightarrow> string \<Rightarrow> exn + int" where
  "parse_digits radix ds =
     (if ds = [] then Inl SyntaxError
      else case digits_acc radix 0 ds of None \<Rightarrow> Inl SyntaxError | Some v \<Rightarrow> Inr v)"

definition BigInt_of_string :: "string \<Rightarrow> exn + int" where
  "BigInt_of_string s =
     (case trim s of
        [] \<Rightarrow> Inr 0
      | c # rest \<Rightarrow>
          if c = CHR ''-'' then map_sum id uminus (parse_digits 10 rest)
          else if c = CHR ''+'' then parse_digits 10 rest
          else if c = CHR ''0'' \<and> rest \<noteq> [] \<and> hd rest \<in> {CHR ''x'', CHR ''X''}
          then parse_digits 16 (tl rest)
          else if c = CHR ''0'' \<and> rest \<noteq> [] \<and> hd rest \<in> {CHR ''o'', CHR ''O''}
          then parse_digits 8 (tl rest)
          else if c = CHR ''0'' \<and> rest \<noteq> [] \<and> hd rest \<in> {CHR ''b'', CHR ''B''}
          then parse_digits 2 (tl rest)
          else parse_digits 10 (c # rest))"

section \<open>Parsing an amount (format/parser.ts)\<close>

record Currency =
  code :: string
  decimals :: nat
  symbol :: string
  "locale" :: "string option"

text \<open>
  \<^verbatim>\<open>parseToMinor(amount, currency)\<close>. The four format checks throw a generic
  \<^verbatim>\<open>Error\<close>; the precision check throws \<^verbatim>\<open>InvalidPrecisionError\<close>, modelled with the
  two numbers of its message; \<^verbatim>\<open>BigInt(combined)\<close> throws by itself on what is left.
\<close>

definition parseToMinor :: "string \<Rightarrow> Currency \<Rightarrow> exn + int" where
  "parseToMinor amount currency =
     (if regex_test (\<lambda>c. c = CHR ''e'' \<or> c = CHR ''E'') amount
      then Inl (Error ''Scientific notation not supported'')
      else if regex_test (\<lambda>c. \<not> (is_digit c \<or> c = CHR ''.'' \<or> c = CHR ''-'')) amount
      then Inl (Error ''Invalid characters in amount'')
      else if \<not> regex_test is_digit amount
      then Inl (Error ''Invalid format'')
      else
        let parts = split CHR ''.'' amount
        in if length parts > 2
           then Inl (Error ''Invalid format: multiple decimal points'')
           else
             let integerPart = parts ! 0;
                 fractionalPart = part_or_empty parts 1
             in if length fractionalPart > decimals currency
                then Inl (InvalidPrecisionError (length fractionalPart) (decimals currency))
                else
                  let paddedFractional = padEnd fractionalPart (decimals currency) CHR ''0'';
                      combined = integerPart @ paddedFractional
                  in BigInt_of_string combined)"

section \<open>Scalar arithmetic (money/arithmetic.ts)\<close>

text \<open>
  A multiplier or divisor is a string or a number; the source reads it only through
  \<^verbatim>\<open>toString()\<close>, so the model takes that rendering. The BigInt operators raise a
  RangeError on a zero divisor.
\<close>

definition bigint_rem_op :: "int \<Rightarrow> int \<Rightarrow> exn + int" where
  "bigint_rem_op a b = (if b = 0 then Inl RangeError else Inr (bigint_mod a b))"

definition bigint_div_op :: "int \<Rightarrow> int \<Rightarrow> exn + int" where
  "bigint_div_op a b = (if b = 0 then Inl RangeError else Inr (bigint_div a b))"

definition parseMultiplier :: "string \<Rightarrow> exn + (int \<times> int)" where
  "parseMultiplier s =
     (if regex_test (\<lambda>c. c = CHR ''e'' \<or> c = CHR ''E'') s
      then Inl (Error ''Scientific notation not supported'')
      else
        let parts = split CHR ''.'' s
        in if length parts > 2 then Inl (Error ''Invalid number format'')
           else
             let integerPart = parts ! 0;
                 fractionalPart = part_or_empty parts 1;
                 denominator = 10 ^ length fractionalPart
             in (case BigInt_of_string (integerPart @ fractionalPart) of
                   Inl e \<Rightarrow> Inl e
                 | Inr numerator \<Rightarrow> Inr (numerator, denominator)))"

text \<open>
  \<^verbatim>\<open>multiply(amount, multiplier, rounding?)\<close>. Every mode of the enum is a non-empty
  string, so \<^verbatim>\<open>!rounding\<close> holds exactly when no mode was passed. The
  \<^verbatim>\<open>RoundingRequiredError\<close> carries the operation name (its second argument, a
  floating-point quotient used in the message, is left out).
\<close>

definition multiply :: "int \<Rightarrow> string \<Rightarrow> RoundingMode option \<Rightarrow> exn + int" where
  "multiply amount multiplier rounding =
     (case parseMultiplier multiplier of
        Inl e \<Rightarrow> Inl e
      | Inr (numerator, denominator) \<Rightarrow>
          let product = amount * numerator
          in (case bigint_rem_op product denominator of
                Inl e \<Rightarrow> Inl e
              | Inr r \<Rightarrow>
                  if r = 0 then bigint_div_op product denominator
                  else (case rounding of
                          None \<Rightarrow> Inl (RoundingRequiredError ''multiply'')
                        | Some mode \<Rightarrow> divideWithRounding product denominator mode)))"

definition divide :: "int \<Rightarrow> string \<Rightarrow> RoundingMode option \<Rightarrow> exn + int" where
  "divide amount divisor rounding =
     (case parseMultiplier divisor of
        Inl e \<Rightarrow> Inl e
      | Inr (numerator, denominator) \<Rightarrow>
          let product = amount * denominator
          in (case bigint_rem_op product numerator of
                Inl e \<Rightarrow> Inl e
              | Inr r \<Rightarrow>
                  if r = 0 then bigint_div_op product numerator
                  else (case rounding of
                          None \<Rightarrow> Inl (RoundingRequiredError ''divide'')
                        | Some mode \<Rightarrow> divideWithRounding product numerator mode)))"

section \<open>The value object (money/Money.ts, money/guards.ts)\<close>

record Money =
  minor :: int
  currency :: Currency

text \<open>The argument of a comparison: a Money, minor units (number or bigint), or a
  major-unit string.\<close>

datatype operand = OfMoney Money | OfMinor int | OfMajor string

definition resolveOther :: "Money \<Rightarrow> operand \<Rightarrow> exn + Money" where
  "resolveOther this other =
     (case other of
        OfMoney m \<Rightarrow> Inr m
      | OfMajor s \<Rightarrow>
          (case parseToMinor s (currency this) of
             Inl e \<Rightarrow> Inl e
           | Inr v \<Rightarrow> Inr \<lparr>minor = v, currency = currency this\<rparr>)
      | OfMinor v \<Rightarrow> Inr \<lparr>minor = v, currency = currency this\<rparr>)"

definition assertSameCurrency :: "Money \<Rightarrow> Money \<Rightarrow> exn + unit" where
  "assertSameCurrency a b =
     (if code (currency a) \<noteq> code (currency b)
      then Inl (CurrencyMismatchError (code (currency a)) (code (currency b)))
      else Inr ())"

definition equals :: "Money \<Rightarrow> operand \<Rightarrow> exn + bool" where
  "equals this other =
     (case resolveOther this other of
        Inl e \<Rightarrow> Inl e
      | Inr otherMoney \<Rightarrow>
          Inr (code (currency this) = code (currency otherMoney) \<and> minor this = minor otherMoney))"

definition greaterThan :: "Money \<Rightarrow> operand \<Rightarrow> exn + bool" where
  "greaterThan this other =
     (case resolveOther this other of
        Inl e \<Rightarrow> Inl e
      | Inr otherMoney \<Rightarrow>
          (case assertSameCurrency this otherMoney of
             Inl e \<Rightarrow> Inl e
           | Inr _ \<Rightarrow> Inr (minor this > minor otherMoney)))"

definition lessThan :: "Money \<Rightarrow> operand \<Rightarrow> exn + bool" where
  "lessThan this other =
     (case resolveOther this other of
        Inl e \<Rightarrow> Inl e
      | Inr otherMoney \<Rightarrow>
          (case assertSameCurrency this otherMoney of
             Inl e \<Rightarrow> Inl e
           | Inr _ \<Rightarrow> Inr (minor this < minor otherMoney)))"

definition compare :: "Money \<Rightarrow> operand \<Rightarrow> exn + int" where
  "compare this other =
     (case resolveOther this other of
        Inl e \<Rightarrow> Inl e
      | Inr otherMoney \<Rightarrow>
          (case assertSameCurrency this otherMoney of
             Inl e \<Rightarrow> Inl e
           | Inr _ \<Rightarrow>
               if minor this < minor otherMoney then Inr (- 1)
               else if minor this > minor otherMoney then Inr 1
               else Inr 0))"

text \<open>
  \<^verbatim>\<open>Money.divide(divisor, options?)\<close>. The guard compares the divisor with the number
  \<^verbatim>\<open>0\<close> and with the string \<^verbatim>\<open>"0"\<close>; both, and nothing else, render as \<^verbatim>\<open>"0"\<close>.
\<close>

definition Money_divide :: "Money \<Rightarrow> string \<Rightarrow> RoundingMode option \<Rightarrow> exn + Money" where
  "Money_divide this divisor rounding =
     (if divisor = ''0'' then Inl (Error ''Division by zero'')
      else (case divide (minor this) divisor rounding of
              Inl e \<Rightarrow> Inl e
            | Inr result \<Rightarrow> Inr \<lparr>minor = result, currency = currency this\<rparr>))"

section \<open>Allocation (money/allocation.ts)\<close>

text \<open>
  A ratio is a number, read by the source only through \<^verbatim>\<open>toString()\<close>; the model takes
  the list of these renderings. \<open>scaleRatio\<close> is the callback of the first \<^verbatim>\<open>map\<close>.
\<close>

definition scaleRatio :: "string \<Rightarrow> exn + (int \<times> nat)" where
  "scaleRatio s =
     (if regex_test (\<lambda>c. c = CHR ''e'' \<or> c = CHR ''E'') s
      then Inl (Error ''Scientific notation not supported'')
      else
        let parts = split CHR ''.'' s;
            decimals = length (part_or_empty parts 1)
        in (case BigInt_of_string (parts ! 0 @ part_or_empty parts 1) of
              Inl e \<Rightarrow> Inl e
            | Inr v \<Rightarrow> Inr (v, decimals)))"

text \<open>A \<^verbatim>\<open>map\<close> whose callback may throw: the first throw ends it.\<close>

fun map_throwing :: "('a \<Rightarrow> exn + 'b) \<Rightarrow> 'a list \<Rightarrow> exn + 'b list" where
  "map_throwing f [] = Inr []"
| "map_throwing f (x # xs) =
     (case f x of
        Inl e \<Rightarrow> Inl e
      | Inr y \<Rightarrow> (case map_throwing f xs of Inl e \<Rightarrow> Inl e | Inr ys \<Rightarrow> Inr (y # ys)))"

record entry =
  share :: int
  remainder :: int
  index :: nat

text \<open>The first loop: one entry per normalized ratio, and the running total of the
  shares.\<close>

fun share_loop :: "int \<Rightarrow> int \<Rightarrow> nat \<Rightarrow> int list \<Rightarrow> entry list \<Rightarrow> int \<Rightarrow> entry list \<times> int" where
  "share_loop amount total' i [] results allocatedTotal = (results, allocatedTotal)"
| "share_loop amount total' i (ratio # rest) results allocatedTotal =
     share_loop amount total' (Suc i) rest
       (results @ [\<lparr>share = bigint_div (amount * ratio) total',
                     remainder = bigint_mod (amount * ratio) total',
                     index = i\<rparr>])
       (allocatedTotal + bigint_div (amount * ratio) total')"

text \<open>
  \<^verbatim>\<open>Array.prototype.sort(cmp)\<close> is stable; with a comparator that orders by a key, the
  result is the one stable sorted arrangement, which insertion from the right computes.
\<close>

fun insert_sorted :: "('a \<Rightarrow> 'a \<Rightarrow> int) \<Rightarrow> 'a \<Rightarrow> 'a list \<Rightarrow> 'a list" where
  "insert_sorted cmp x [] = [x]"
| "insert_sorted cmp x (y # ys) =
     (if cmp x y \<le> 0 then x # y # ys else y # insert_sorted cmp x ys)"

definition array_sort :: "('a \<Rightarrow> 'a \<Rightarrow> int) \<Rightarrow> 'a list \<Rightarrow> 'a list" where
  "array_sort cmp xs = foldr (insert_sorted cmp) xs []"

definition by_remainder_desc :: "entry \<Rightarrow> entry \<Rightarrow> int" where
  "by_remainder_desc a b =
     (if remainder b > remainder a then 1
      else if remainder b < remainder a then - 1
      else 0)"

definition by_index :: "entry \<Rightarrow> entry \<Rightarrow> int" where
  "by_index a b = int (index a) - int (index b)"

text \<open>
  The second loop, \<^verbatim>\<open>for (let i = 0; i < Number(leftOver); i++) results[i].share += 1n\<close>.
  Writing to a position past the end is a TypeError (\<^verbatim>\<open>results[i]\<close> is undefined).
\<close>

function leftover_loop :: "nat \<Rightarrow> int \<Rightarrow> entry list \<Rightarrow> exn + entry list" where
  "leftover_loop i leftOver results =
     (if int i < leftOver
      then (if i < length results
            then leftover_loop (Suc i) leftOver
                   (results[i := (results ! i)\<lparr>share := share (results ! i) + 1\<rparr>])
            else Inl TypeError)
      else Inr results)"
  by pat_completeness auto
termination
  by (relation "measure (\<lambda>(i, leftOver, results). nat (leftOver - int i))") auto

declare leftover_loop.simps [simp del]

text \<open>The second \<^verbatim>\<open>map\<close>: every scaled ratio brought to the largest number of decimals.\<close>

definition normalizedRatios :: "(int \<times> nat) list \<Rightarrow> int list" where
  "normalizedRatios scaledRatios =
     (let maxDecimals = fold max (map snd scaledRatios) 0
      in map (\<lambda>(v, decimals). v * 10 ^ (maxDecimals - decimals)) scaledRatios)"

definition allocate :: "int \<Rightarrow> string list \<Rightarrow> exn + int list" where
  "allocate amount ratios =
     (if length ratios = 0 then Inl (Error ''Cannot allocate to empty ratios'')
      else
        (case map_throwing scaleRatio ratios of
           Inl e \<Rightarrow> Inl e
         | Inr scaledRatios \<Rightarrow>
             let normalized = normalizedRatios scaledRatios;
                 total' = fold (\<lambda>r sum. sum + r) normalized 0
             in if total' = 0 then Inl (Error ''Total ratio must be greater than zero'')
                else
                  let (results, allocatedTotal) = share_loop amount total' 0 normalized [] 0;
                      leftOver = amount - allocatedTotal;
                      sorted = array_sort by_remainder_desc results
                  in (case leftover_loop 0 leftOver sorted of
                        Inl e \<Rightarrow> Inl e
                      | Inr bumped \<Rightarrow> Inr (map share (array_sort by_index bumped)))))"

section \<open>The allocation, step by step\<close>

text \<open>
  Names for what the body of \<open>allocate\<close> computes from the amount and the normalized
  ratios: the entry pushed for one position, the increment of the second loop, the
  truncated shares, the remainders and the leftover.
\<close>

definition mk_entry :: "int \<Rightarrow> int \<Rightarrow> nat \<times> int \<Rightarrow> entry" where
  "mk_entry amount t p =
     \<lparr>share = bigint_div (amount * snd p) t, remainder = bigint_mod (amount * snd p) t,
      index = fst p\<rparr>"

definition bump :: "entry \<Rightarrow> entry" where
  "bump e = e\<lparr>share := share e + 1\<rparr>"

definition base_shares :: "int \<Rightarrow> int list \<Rightarrow> int list" where
  "base_shares amount ws = map (\<lambda>w. bigint_div (amount * w) (sum_list ws)) ws"

definition base_remainders :: "int \<Rightarrow> int list \<Rightarrow> int list" where
  "base_remainders amount ws = map (\<lambda>w. bigint_mod (amount * w) (sum_list ws)) ws"

definition base_leftover :: "int \<Rightarrow> int list \<Rightarrow> int" where
  "base_leftover amount ws = amount - sum_list (base_shares amount ws)"

text \<open>The order in which the first sort leaves the entries.\<close>

definition entry_before :: "entry \<Rightarrow> entry \<Rightarrow> bool" where
  "entry_before a b =
     (remainder a > remainder b \<or> (remainder a = remainder b \<and> index a < index b))"

section \<open>Notions of the specification used to state the allocation's contract\<close>

text \<open>
  The specification sorts the positions by remainder, largest first, ties by position
  ascending. \<open>spec_rank rems i\<close> is the place of position \<open>i\<close> in that order: the number
  of positions that come before it.
\<close>

definition spec_before :: "int list \<Rightarrow> nat \<Rightarrow> nat \<Rightarrow> bool" where
  "spec_before rems j i = (rems ! j > rems ! i \<or> (rems ! j = rems ! i \<and> j < i))"

definition spec_rank :: "int list \<Rightarrow> nat \<Rightarrow> nat" where
  "spec_rank rems i = length (filter (\<lambda>j. spec_before rems j i) [0..<length rems])"

text \<open>
  The allocation of the specification (section 4.4): the share of a weight is the floor
  of \<open>amount * weight / total\<close>, its remainder is \<open>(amount * weight) mod total\<close>, the
  leftover is the amount minus the sum of the shares, and the positions of rank below the
  leftover (the \<open>leftover\<close> largest remainders) get one unit more; the list is in the
  order of the weights. On \<open>int\<close>, \<open>div\<close> is the floor of the quotient and \<open>mod\<close> its
  remainder.
\<close>

definition spec_shares :: "int \<Rightarrow> int list \<Rightarrow> int list" where
  "spec_shares amount ws = map (\<lambda>w. (amount * w) div sum_list ws) ws"

definition spec_remainders :: "int \<Rightarrow> int list \<Rightarrow> int list" where
  "spec_remainders amount ws = map (\<lambda>w. (amount * w) mod sum_list ws) ws"

definition spec_leftover :: "int \<Rightarrow> int list \<Rightarrow> int" where
  "spec_leftover amount ws = amount - sum_list (spec_shares amount ws)"

definition spec_allocation :: "int \<Rightarrow> int list \<Rightarrow> int list" where
  "spec_allocation amount ws =
     map (\<lambda>i. spec_shares amount ws ! i
               + (if int (spec_rank (spec_remainders amount ws) i) < spec_leftover amount ws
                  then 1 else 0))
       [0..<length ws]"

section \<open>The result of the code in closed form\<close>

text \<open>
  What \<open>allocate\<close> returns on the normalized ratios, as a function of the positions: the
  truncated share of the code, plus one unit where the rank of the code's remainder is
  below the code's leftover.
\<close>

definition base_allocation :: "int \<Rightarrow> int list \<Rightarrow> int list" where
  "base_allocation amount ws =
     map (\<lambda>i. base_shares amount ws ! i
               + (if int (spec_rank (base_remainders amount ws) i) < base_leftover amount ws
                  then 1 else 0))
       [0..<length ws]"

section \<open>Notions of the specification used to state the parser's contract\<close>

text \<open>
  The specification calls a literal malformed when it uses scientific notation, holds a
  character other than a digit, the point and the minus sign, has more than one decimal
  point, or has no digit at all; the fractional part of a literal is what follows its
  decimal point. A format error is a generic \<^verbatim>\<open>Error\<close>, a precision error is an
  \<^verbatim>\<open>InvalidPrecisionError\<close>.
\<close>

definition spec_malformed :: "string \<Rightarrow> bool" where
  "spec_malformed s =
     ((\<exists>c \<in> set s. c = CHR ''e'' \<or> c = CHR ''E'')
      \<or> (\<exists>c \<in> set s. \<not> (is_digit c \<or> c = CHR ''.'' \<or> c = CHR ''-''))
      \<or> count_list s CHR ''.'' > 1
      \<or> \<not> (\<exists>c \<in> set s. is_digit c))"

definition spec_fractional_part :: "string \<Rightarrow> string" where
  "spec_fractional_part s = tl (dropWhile (\<lambda>c. c \<noteq> CHR ''.'') s)"

definition is_format_error :: "exn + int \<Rightarrow> bool" where
  "is_format_error r = (case r of Inl (Error msg) \<Rightarrow> True | _ \<Rightarrow> False)"

definition is_precision_error :: "exn + int \<Rightarrow> bool" where
  "is_precision_error r = (case r of Inl (InvalidPrecisionError k d) \<Rightarrow> True | _ \<Rightarrow> False)"

section \<open>Facts about BigInt division\<close>

lemma abs_mod_abs_nonneg: "0 \<le> \<bar>a\<bar> mod \<bar>b :: int\<bar>"
  by (cases "b = 0") simp_all

lemma bigint_div_mod: "bigint_div a b * b + bigint_mod a b = a"
proof -
  have b: "sgn b * b = \<bar>b\<bar>" by (simp add: sgn_if)
  have "sgn a * sgn b * (\<bar>a\<bar> div \<bar>b\<bar>) * b = sgn a * ((\<bar>a\<bar> div \<bar>b\<bar>) * (sgn b * b))"
    by (simp add: mult.assoc mult.left_commute)
  then have "bigint_div a b * b + bigint_mod a b
      = sgn a * ((\<bar>a\<bar> div \<bar>b\<bar>) * \<bar>b\<bar> + \<bar>a\<bar> mod \<bar>b\<bar>)"
    by (simp only: bigint_div_def bigint_mod_def distrib_left b)
  also have "\<dots> = sgn a * \<bar>a\<bar>" by simp
  also have "\<dots> = a" by (simp add: sgn_if)
  finally show ?thesis .
qed

lemma bigint_mod_abs: "\<bar>bigint_mod a b\<bar> = \<bar>a\<bar> mod \<bar>b\<bar>"
  using abs_mod_abs_nonneg [of a b] by (simp add: bigint_mod_def abs_mult sgn_if)

lemma bigint_mod_abs_less: "b \<noteq> 0 \<Longrightarrow> \<bar>bigint_mod a b\<bar> < \<bar>b\<bar>"
  by (simp add: bigint_mod_abs)

lemma bigint_mod_sign_nonneg: "0 \<le> a \<Longrightarrow> 0 \<le> bigint_mod a b"
  using abs_mod_abs_nonneg [of a b] by (simp add: bigint_mod_def sgn_if)

lemma bigint_mod_sign_nonpos: "a \<le> 0 \<Longrightarrow> bigint_mod a b \<le> 0"
  using abs_mod_abs_nonneg [of a b] by (simp add: bigint_mod_def sgn_if)

lemma bigint_div_nonneg: "0 \<le> a \<Longrightarrow> 0 < b \<Longrightarrow> bigint_div a b = a div b"
  by (cases "a = 0") (simp_all add: bigint_div_def sgn_if)

lemma bigint_mod_nonneg: "0 \<le> a \<Longrightarrow> 0 < b \<Longrightarrow> bigint_mod a b = a mod b"
  by (cases "a = 0") (simp_all add: bigint_mod_def sgn_if)

lemma bigint_mod_2_odd: "(bigint_mod q 2 \<noteq> 0) = odd q"
proof -
  have "odd \<bar>q\<bar> = odd q" by simp
  moreover have "(bigint_mod q 2 \<noteq> 0) = odd \<bar>q\<bar>"
    by (cases "q = 0") (simp_all add: bigint_mod_def sgn_if flip: odd_iff_mod_2_eq_one)
  ultimately show ?thesis by simp
qed

lemma bigint_div_floor:
  assumes "d \<noteq> 0"
  shows "n div d = (if bigint_mod n d \<noteq> 0 \<and> ((n < 0) \<noteq> (d < 0))
                    then bigint_div n d - 1 else bigint_div n d)"
proof -
  define q where "q = bigint_div n d"
  define r where "r = bigint_mod n d"
  have eq: "n = d * q + r"
    using bigint_div_mod [of n d] by (simp add: q_def r_def mult.commute)
  have eq': "n = d * (q - 1) + (r + d)"
    using eq by (simp add: algebra_simps)
  have lt: "\<bar>r\<bar> < \<bar>d\<bar>"
    unfolding r_def using assms by (rule bigint_mod_abs_less)
  have s1: "0 \<le> n \<Longrightarrow> 0 \<le> r"
    unfolding r_def by (rule bigint_mod_sign_nonneg)
  have s2: "n \<le> 0 \<Longrightarrow> r \<le> 0"
    unfolding r_def by (rule bigint_mod_sign_nonpos)
  consider (pp) "0 < d" "0 \<le> n" | (pn) "0 < d" "n < 0" "r = 0" | (pn') "0 < d" "n < 0" "r \<noteq> 0"
    | (np) "d < 0" "0 \<le> n" "r = 0" | (np') "d < 0" "0 \<le> n" "r \<noteq> 0" | (nn) "d < 0" "n < 0"
    using assms by linarith
  then have "n div d = (if r \<noteq> 0 \<and> ((n < 0) \<noteq> (d < 0)) then q - 1 else q)"
  proof cases
    case pp
    with lt s1 have "0 \<le> r" "r < d" by simp_all
    with eq have "n div d = q" by (rule int_div_pos_eq)
    with pp show ?thesis by simp
  next
    case pn
    with eq show ?thesis by simp
  next
    case pn'
    with lt s2 have "0 \<le> r + d" "r + d < d" by simp_all
    with eq' have "n div d = q - 1" by (rule int_div_pos_eq)
    with pn' show ?thesis by simp
  next
    case np
    with eq show ?thesis by simp
  next
    case np'
    with lt s1 have "r + d \<le> 0" "d < r + d" by simp_all
    with eq' have "n div d = q - 1" by (rule int_div_neg_eq)
    with np' show ?thesis by simp
  next
    case nn
    with lt s2 have "r \<le> 0" "d < r" by simp_all
    with eq have "n div d = q" by (rule int_div_neg_eq)
    with nn show ?thesis by simp
  qed
  then show ?thesis by (simp only: q_def r_def)
qed

lemma bigint_div_uminus: "bigint_div (- n) d = - bigint_div n d"
  by (simp add: bigint_div_def)

lemma bigint_mod_uminus: "bigint_mod (- n) d = - bigint_mod n d"
  by (simp add: bigint_mod_def)

lemma bigint_mod_zero_dividend [simp]: "bigint_mod 0 d = 0"
  by (simp add: bigint_mod_def)

lemma bigint_div_zero_dividend [simp]: "bigint_div 0 d = 0"
  by (simp add: bigint_div_def)

lemma residue_quotient: "n - bigint_div n d * d = bigint_mod n d"
  using bigint_div_mod [of n d] by simp

lemma residue_away_pos:
  assumes "d \<noteq> 0" "bigint_mod n d \<noteq> 0" "(n < 0) = (d < 0)"
  shows "\<bar>n - (bigint_div n d + 1) * d\<bar> < \<bar>d\<bar>"
proof -
  have "n - (bigint_div n d + 1) * d = bigint_mod n d - d"
    using bigint_div_mod [of n d] by (simp add: algebra_simps)
  moreover have "\<bar>bigint_mod n d - d\<bar> < \<bar>d\<bar>"
    using assms bigint_mod_abs_less [of d n] bigint_mod_sign_nonneg [of n d]
      bigint_mod_sign_nonpos [of n d] by linarith
  ultimately show ?thesis by simp
qed

lemma residue_away_neg:
  assumes "d \<noteq> 0" "bigint_mod n d \<noteq> 0" "(n < 0) \<noteq> (d < 0)"
  shows "\<bar>n - (bigint_div n d - 1) * d\<bar> < \<bar>d\<bar>"
proof -
  have "n - (bigint_div n d - 1) * d = bigint_mod n d + d"
    using bigint_div_mod [of n d] by (simp add: algebra_simps)
  moreover have "\<bar>bigint_mod n d + d\<bar> < \<bar>d\<bar>"
    using assms bigint_mod_abs_less [of d n] bigint_mod_sign_nonneg [of n d]
      bigint_mod_sign_nonpos [of n d] by linarith
  ultimately show ?thesis by simp
qed

lemma residue_trunc: "d \<noteq> 0 \<Longrightarrow> \<bar>n - bigint_div n d * d\<bar> < \<bar>d\<bar>"
  by (simp add: residue_quotient bigint_mod_abs_less)

section \<open>The rounding engine\<close>

text \<open>
  C6. Whatever the numerator and the rounding mode, a zero denominator makes
  \<open>divideWithRounding\<close> throw the library's own \<^verbatim>\<open>Error("Division by zero")\<close>: the
  guard precedes both BigInt operators, so no RangeError of the platform is raised and no
  value is returned.
\<close>

theorem divideWithRounding_zero_denominator:
  "divideWithRounding n 0 m = Inl (Error ''Division by zero'')"
  by (simp add: divideWithRounding_def)

text \<open>
  C3. When the denominator is not zero and the remainder \<open>n % d\<close> is zero, every one of
  the six modes returns the quotient \<open>n / d\<close> unchanged; on such operands the truncating
  quotient is the exact one, so it multiplies back to \<open>n\<close>.
\<close>

theorem divideWithRounding_exact:
  assumes "d \<noteq> 0" and "bigint_mod n d = 0"
  shows "divideWithRounding n d m = Inr (bigint_div n d) \<and> bigint_div n d * d = n"
  using assms bigint_div_mod [of n d] by (simp add: divideWithRounding_def)

theorem divideWithRounding_exact_witness:
  "(4::int) \<noteq> 0 \<and> bigint_mod (-12) 4 = 0 \<and> divideWithRounding (-12) 4 HALF_EVEN = Inr (-3)
     \<and> bigint_div (-12) 4 = -3"
  using divideWithRounding_exact [of 4 "-12" HALF_EVEN]
  by (simp add: bigint_mod_def bigint_div_def)

text \<open>
  C2. When the denominator is not zero and the remainder is not zero, the result is the
  entry of the specification's policy table for the mode, the sign of the exact quotient,
  the class of the remainder and the truncated quotient \<open>q\<close>. FLOOR is the quotient
  rounded toward minus infinity (\<open>div\<close> on \<open>int\<close>), CEIL the quotient rounded toward
  plus infinity, TRUNCATE is \<open>q\<close>. The boundary examples of the specification hold:
  5/2 is 3 under HALF_UP and 2 under HALF_DOWN and HALF_EVEN, 7/2 is 4 under HALF_EVEN,
  -35/10 is -4 under HALF_EVEN.
\<close>

theorem divideWithRounding_policy_table:
  assumes "d \<noteq> 0" and "bigint_mod n d \<noteq> 0"
  shows "divideWithRounding n d m =
           Inr (policy_table m (positive_result n d) (classify (bigint_mod n d) d)
                  (bigint_div n d))
       \<and> divideWithRounding n d FLOOR = Inr (n div d)
       \<and> divideWithRounding n d CEIL = Inr (- ((- n) div d))
       \<and> divideWithRounding n d TRUNCATE = Inr (bigint_div n d)
       \<and> divideWithRounding 5 2 HALF_UP = Inr 3
       \<and> divideWithRounding 5 2 HALF_DOWN = Inr 2
       \<and> divideWithRounding 5 2 HALF_EVEN = Inr 2
       \<and> divideWithRounding 7 2 HALF_EVEN = Inr 4
       \<and> divideWithRounding (-35) 10 HALF_EVEN = Inr (-4)"
proof -
  have table: "divideWithRounding n d m =
      Inr (policy_table m (positive_result n d) (classify (bigint_mod n d) d) (bigint_div n d))"
    using assms
    by (cases m)
      (auto simp add: divideWithRounding_def Let_def classify_def positive_result_def
        away_def bigint_mod_2_odd)
  have floor: "divideWithRounding n d FLOOR = Inr (n div d)"
    using assms(1) by (simp add: divideWithRounding_def Let_def bigint_div_floor)
  have ceil: "divideWithRounding n d CEIL = Inr (- ((- n) div d))"
    using assms(1)
    by (cases "n = 0")
      (auto simp add: divideWithRounding_def Let_def bigint_div_floor bigint_div_uminus
        bigint_mod_uminus)
  have trunc: "divideWithRounding n d TRUNCATE = Inr (bigint_div n d)"
    using assms(1) by (simp add: divideWithRounding_def Let_def)
  have ex: "divideWithRounding 5 2 HALF_UP = Inr 3" "divideWithRounding 5 2 HALF_DOWN = Inr 2"
    "divideWithRounding 5 2 HALF_EVEN = Inr 2" "divideWithRounding 7 2 HALF_EVEN = Inr 4"
    "divideWithRounding (-35) 10 HALF_EVEN = Inr (-4)"
    by (simp_all add: divideWithRounding_def bigint_div_def bigint_mod_def)
  from table floor ceil trunc ex show ?thesis by simp
qed

theorem divideWithRounding_policy_table_witness:
  "(10::int) \<noteq> 0 \<and> bigint_mod (-35) 10 \<noteq> 0
     \<and> classify (bigint_mod (-35) 10) 10 = ExactlyHalf \<and> \<not> positive_result (-35) 10
     \<and> bigint_div (-35) 10 = -3
     \<and> divideWithRounding (-35) 10 HALF_EVEN = Inr (-4)
     \<and> divideWithRounding (-35) 10 FLOOR = Inr (-4)
     \<and> divideWithRounding (-35) 10 CEIL = Inr (-3)"
  using divideWithRounding_policy_table [of 10 "-35" HALF_EVEN]
  by (simp add: bigint_mod_def bigint_div_def classify_def positive_result_def away_def)

text \<open>
  C10. For a denominator that is not zero, every mode returns a value \<open>r\<close>, and
  \<open>|n - r * d| < |d|\<close>: the result is the floor or the ceiling of the exact quotient and
  is never a whole unit or more away from it.
\<close>

theorem divideWithRounding_within_one:
  assumes "d \<noteq> 0"
  shows "\<exists>r. divideWithRounding n d m = Inr r \<and> \<bar>n - r * d\<bar> < \<bar>d\<bar>"
  using assms residue_away_pos [of d n] residue_away_neg [of d n] residue_trunc [of d n]
  by (cases m) (auto simp add: divideWithRounding_def Let_def)

theorem divideWithRounding_within_one_witness:
  "(3::int) \<noteq> 0 \<and> (\<exists>r. divideWithRounding (-10) 3 HALF_UP = Inr r \<and> \<bar>-10 - r * 3\<bar> < \<bar>3::int\<bar>)
     \<and> divideWithRounding (-10) 3 HALF_UP = Inr (-3)"
  using divideWithRounding_within_one [of 3 "-10" HALF_UP]
  by (simp add: divideWithRounding_def bigint_mod_def bigint_div_def)

section \<open>Scalar multiplication and division\<close>

lemma parseMultiplier_denominator:
  "parseMultiplier s = Inr (numerator, denominator) \<Longrightarrow> 0 < denominator"
  by (auto simp add: parseMultiplier_def Let_def split: if_splits sum.splits)

text \<open>
  C4. Let the multiplier parse to the ratio \<open>numerator / denominator\<close>. When
  \<open>(amount * numerator) % denominator\<close> is zero, \<open>multiply\<close> returns the quotient, which
  is exact, whether or not a mode is given. When it is not zero, \<open>multiply\<close> without a mode
  throws RoundingRequiredError, and with a mode returns what \<open>divideWithRounding\<close> returns
  on \<open>(amount * numerator, denominator, mode)\<close>. For 100 minor units and the multiplier
  0.555: RoundingRequiredError without a mode, 56 under HALF_UP, 55 under FLOOR.
\<close>

theorem multiply_rounding_gate:
  assumes "parseMultiplier multiplier = Inr (numerator, denominator)"
  shows "(bigint_mod (amount * numerator) denominator = 0 \<longrightarrow>
            multiply amount multiplier rounding = Inr (bigint_div (amount * numerator) denominator)
            \<and> bigint_div (amount * numerator) denominator * denominator = amount * numerator)
       \<and> (bigint_mod (amount * numerator) denominator \<noteq> 0 \<longrightarrow>
            multiply amount multiplier None = Inl (RoundingRequiredError ''multiply'')
            \<and> multiply amount multiplier (Some mode) =
                divideWithRounding (amount * numerator) denominator mode)
       \<and> multiply 100 ''0.555'' None = Inl (RoundingRequiredError ''multiply'')
       \<and> multiply 100 ''0.555'' (Some HALF_UP) = Inr 56
       \<and> multiply 100 ''0.555'' (Some FLOOR) = Inr 55"
proof -
  have d: "denominator \<noteq> 0"
    using parseMultiplier_denominator [OF assms] by simp
  have exact: "bigint_div (amount * numerator) denominator * denominator = amount * numerator"
    if "bigint_mod (amount * numerator) denominator = 0"
    using that bigint_div_mod [of "amount * numerator" denominator] by simp
  have ex: "multiply 100 ''0.555'' None = Inl (RoundingRequiredError ''multiply'')"
    "multiply 100 ''0.555'' (Some HALF_UP) = Inr 56"
    "multiply 100 ''0.555'' (Some FLOOR) = Inr 55"
    by code_simp+
  show ?thesis
    using assms d exact ex
    by (simp add: multiply_def bigint_rem_op_def bigint_div_op_def)
qed

theorem multiply_rounding_gate_witness:
  "parseMultiplier ''0.555'' = Inr (555, 1000)
   \<and> bigint_mod (100 * 555) 1000 \<noteq> 0 \<and> bigint_mod (200 * 555) 1000 = 0
   \<and> multiply 200 ''0.555'' None = Inr 111
   \<and> multiply 100 ''0.555'' None = Inl (RoundingRequiredError ''multiply'')
   \<and> multiply 100 ''0.555'' (Some HALF_EVEN) = divideWithRounding (100 * 555) 1000 HALF_EVEN"
proof -
  have p: "parseMultiplier ''0.555'' = Inr (555, 1000)" by code_simp
  show ?thesis
    using p multiply_rounding_gate [OF p, of 100 None HALF_EVEN]
      multiply_rounding_gate [OF p, of 200 None HALF_EVEN]
    by (simp add: bigint_mod_def bigint_div_def)
qed

lemma divide_zero_numerator:
  "parseMultiplier divisor = Inr (0, denominator) \<Longrightarrow>
     divide amount divisor rounding = Inl RangeError"
  by (simp add: divide_def bigint_rem_op_def)

text \<open>
  C5, evaluated on the code. For the divisor literals \<^verbatim>\<open>"0.0"\<close> and \<^verbatim>\<open>"0.00"\<close> the
  numerator of the parsed ratio is zero, the guard of \<open>Money.divide\<close> (which matches the
  rendering \<^verbatim>\<open>"0"\<close> only) lets them through, and \<open>divide\<close> fails in the BigInt
  operator \<^verbatim>\<open>%\<close> with a RangeError, for every rounding option; \<open>divide\<close> itself does the
  same on \<^verbatim>\<open>"0"\<close>. Only on \<^verbatim>\<open>"0"\<close> (and the number 0) does \<open>Money.divide\<close> throw
  the library's \<^verbatim>\<open>Error("Division by zero")\<close>.
\<close>

theorem divide_zero_literal:
  "divide amount ''0.0'' rounding = Inl RangeError
   \<and> divide amount ''0.00'' rounding = Inl RangeError
   \<and> divide amount ''0'' rounding = Inl RangeError
   \<and> Money_divide m ''0.0'' rounding = Inl RangeError
   \<and> Money_divide m ''0.00'' rounding = Inl RangeError
   \<and> Money_divide m ''0'' rounding = Inl (Error ''Division by zero'')"
proof -
  have p: "parseMultiplier ''0.0'' = Inr (0, 10)" "parseMultiplier ''0.00'' = Inr (0, 100)"
    "parseMultiplier ''0'' = Inr (0, 1)"
    by code_simp+
  show ?thesis
    by (simp add: Money_divide_def divide_def p bigint_rem_op_def)
qed

section \<open>Parsing\<close>

lemma split_nonempty: "split sep s \<noteq> []"
  by (induction s) (auto split: list.splits)

lemma length_split: "length (split sep s) = Suc (count_list s sep)"
  by (induction s) (auto split: list.splits simp add: split_nonempty)

lemma split_second:
  "count_list s sep \<le> 1 \<Longrightarrow> part_or_empty (split sep s) 1 = tl (dropWhile (\<lambda>c. c \<noteq> sep) s)"
proof (induction s)
  case Nil
  then show ?case by (simp add: part_or_empty_def)
next
  case (Cons c cs)
  show ?case
  proof (cases "c = sep")
    case True
    with Cons.prems have "count_list cs sep = 0" by simp
    then have "sep \<notin> set cs" by (simp add: count_list_0_iff)
    then have "split sep cs = [cs]"
      by (induction cs) (auto split: list.splits)
    with True show ?thesis by (simp add: part_or_empty_def)
  next
    case False
    with Cons.prems have "count_list cs sep \<le> 1" by simp
    then have ih: "part_or_empty (split sep cs) 1 = tl (dropWhile (\<lambda>c. c \<noteq> sep) cs)"
      by (rule Cons.IH)
    obtain p ps where ps: "split sep cs = p # ps"
      using split_nonempty [of sep cs] by (cases "split sep cs") auto
    with False ih show ?thesis by (cases ps) (simp_all add: part_or_empty_def)
  qed
qed

lemma parseToMinor_malformed:
  "spec_malformed s \<Longrightarrow> is_format_error (parseToMinor s cur)"
  by (auto simp add: spec_malformed_def parseToMinor_def regex_test_def list_ex_iff
      is_format_error_def length_split Let_def)

lemma parseToMinor_wellformed:
  assumes "\<not> spec_malformed s"
  shows "parseToMinor s cur =
     (if length (spec_fractional_part s) > decimals cur
      then Inl (InvalidPrecisionError (length (spec_fractional_part s)) (decimals cur))
      else BigInt_of_string (split CHR ''.'' s ! 0
             @ padEnd (spec_fractional_part s) (decimals cur) CHR ''0''))"
proof -
  from assms have c: "count_list s CHR ''.'' \<le> 1"
    by (simp add: spec_malformed_def)
  have f: "part_or_empty (split CHR ''.'' s) 1 = spec_fractional_part s"
    unfolding spec_fractional_part_def using c by (rule split_second)
  from assms have t1: "\<not> regex_test (\<lambda>c. c = CHR ''e'' \<or> c = CHR ''E'') s"
    by (simp add: spec_malformed_def regex_test_def list_ex_iff)
  from assms have t2: "\<not> regex_test (\<lambda>c. \<not> (is_digit c \<or> c = CHR ''.'' \<or> c = CHR ''-'')) s"
    by (simp add: spec_malformed_def regex_test_def list_ex_iff)
  from assms have t3: "regex_test is_digit s"
    by (simp add: spec_malformed_def regex_test_def list_ex_iff)
  from c have t4: "\<not> length (split CHR ''.'' s) > 2"
    by (simp add: length_split)
  show ?thesis
    unfolding parseToMinor_def Let_def
    by (simp only: t1 t2 t3 t4 f if_False if_True not_True_eq_False not_False_eq_True)
qed

lemma parse_digits_not_precision: "parse_digits r t \<noteq> Inl (InvalidPrecisionError a b)"
  by (simp add: parse_digits_def split: option.splits)

lemma BigInt_of_string_not_precision: "BigInt_of_string t \<noteq> Inl (InvalidPrecisionError a b)"
proof -
  have neg: "map_sum id uminus (parse_digits r u) \<noteq> Inl (InvalidPrecisionError a b)" for r u
    using parse_digits_not_precision [of r u a b] by (cases "parse_digits r u") simp_all
  show ?thesis
    unfolding BigInt_of_string_def
    by (simp add: neg parse_digits_not_precision split: list.splits)
qed

lemma parseToMinor_precision_iff:
  "is_precision_error (parseToMinor s cur) \<longleftrightarrow>
     \<not> spec_malformed s \<and> length (spec_fractional_part s) > decimals cur"
proof (cases "spec_malformed s")
  case True
  then have "is_format_error (parseToMinor s cur)" by (rule parseToMinor_malformed)
  then have "\<not> is_precision_error (parseToMinor s cur)"
    by (auto simp add: is_format_error_def is_precision_error_def split: sum.splits exn.splits)
  with True show ?thesis by simp
next
  case False
  then show ?thesis
    using BigInt_of_string_not_precision
    by (auto simp add: parseToMinor_wellformed is_precision_error_def split: sum.splits exn.splits)
qed

text \<open>
  C8. For every string and every currency: a malformed literal makes \<open>parseToMinor\<close> throw
  a format error; \<open>parseToMinor\<close> throws a precision error exactly when the literal is not
  malformed and its fractional part is longer than the currency's decimals, and the error
  then carries that length and the currency's limit; \<^verbatim>\<open>"100.001"\<close> at two decimals throws
  the precision error.
\<close>

theorem parseToMinor_error_kinds:
  "(spec_malformed s \<longrightarrow> is_format_error (parseToMinor s cur))
   \<and> (is_precision_error (parseToMinor s cur) \<longleftrightarrow>
        \<not> spec_malformed s \<and> length (spec_fractional_part s) > decimals cur)
   \<and> (length (spec_fractional_part s) > decimals cur \<and> \<not> spec_malformed s \<longrightarrow>
        parseToMinor s cur = Inl (InvalidPrecisionError (length (spec_fractional_part s)) (decimals cur)))
   \<and> parseToMinor ''100.001'' \<lparr>code = ''USD'', decimals = 2, symbol = ''$'', locale = None\<rparr>
        = Inl (InvalidPrecisionError 3 2)"
proof -
  have ex: "parseToMinor ''100.001'' \<lparr>code = ''USD'', decimals = 2, symbol = ''$'', locale = None\<rparr>
        = Inl (InvalidPrecisionError 3 2)"
    by code_simp
  show ?thesis
    using ex parseToMinor_malformed [of s cur] parseToMinor_precision_iff [of s cur]
    by (simp add: parseToMinor_wellformed)
qed

theorem parseToMinor_error_kinds_witness:
  "spec_malformed ''1,234.56''
   \<and> is_format_error (parseToMinor ''1,234.56'' \<lparr>code = ''USD'', decimals = 2, symbol = ''$'', locale = None\<rparr>)
   \<and> \<not> spec_malformed ''1.234'' \<and> length (spec_fractional_part ''1.234'') = 3
   \<and> parseToMinor ''1.234'' \<lparr>code = ''USD'', decimals = 2, symbol = ''$'', locale = None\<rparr>
        = Inl (InvalidPrecisionError 3 2)
   \<and> \<not> is_precision_error (parseToMinor ''1,234.567'' \<lparr>code = ''USD'', decimals = 2, symbol = ''$'', locale = None\<rparr>)"
proof -
  have m: "spec_malformed ''1,234.56''" "spec_malformed ''1,234.567''" "\<not> spec_malformed ''1.234''"
    "length (spec_fractional_part ''1.234'') = 3"
    by code_simp+
  show ?thesis
    using m
      parseToMinor_error_kinds [of "''1,234.56''" "\<lparr>code = ''USD'', decimals = 2, symbol = ''$'', locale = None\<rparr>"]
      parseToMinor_error_kinds [of "''1.234''" "\<lparr>code = ''USD'', decimals = 2, symbol = ''$'', locale = None\<rparr>"]
      parseToMinor_error_kinds [of "''1,234.567''" "\<lparr>code = ''USD'', decimals = 2, symbol = ''$'', locale = None\<rparr>"]
    by simp
qed

section \<open>Equality and ordering of the value object\<close>

text \<open>
  C9 as stated fails for \<open>equals\<close>: on 100 USD and 100 EUR it returns \<open>false\<close> and
  throws nothing.
\<close>

theorem equals_mismatch_counterexample:
  "equals \<lparr>minor = 100, currency = \<lparr>code = ''USD'', decimals = 2, symbol = ''$'', locale = None\<rparr>\<rparr>
     (OfMoney \<lparr>minor = 100, currency = \<lparr>code = ''EUR'', decimals = 2, symbol = ''E'', locale = None\<rparr>\<rparr>)
   = Inr False"
  by (simp add: equals_def resolveOther_def)

text \<open>
  C9, amended. For two Money values whose currency codes differ, \<open>compare\<close>,
  \<open>greaterThan\<close> and \<open>lessThan\<close> throw CurrencyMismatchError with the two codes, and
  \<open>equals\<close> returns \<open>false\<close>. When the codes agree, \<open>equals\<close> holds exactly when the
  minor-unit values are equal, and the ordering operations compare the minor-unit values.
\<close>

theorem comparison_currency_check:
  "(code (currency a) \<noteq> code (currency b) \<longrightarrow>
      compare a (OfMoney b) = Inl (CurrencyMismatchError (code (currency a)) (code (currency b)))
      \<and> greaterThan a (OfMoney b) = Inl (CurrencyMismatchError (code (currency a)) (code (currency b)))
      \<and> lessThan a (OfMoney b) = Inl (CurrencyMismatchError (code (currency a)) (code (currency b)))
      \<and> equals a (OfMoney b) = Inr False)
   \<and> (code (currency a) = code (currency b) \<longrightarrow>
      equals a (OfMoney b) = Inr (minor a = minor b)
      \<and> greaterThan a (OfMoney b) = Inr (minor a > minor b)
      \<and> lessThan a (OfMoney b) = Inr (minor a < minor b)
      \<and> compare a (OfMoney b) = Inr (sgn (minor a - minor b)))"
  by (simp add: equals_def compare_def greaterThan_def lessThan_def resolveOther_def
      assertSameCurrency_def sgn_if)

theorem comparison_currency_check_witness:
  "code (currency \<lparr>minor = 100, currency = \<lparr>code = ''USD'', decimals = 2, symbol = ''$'', locale = None\<rparr>\<rparr>)
     \<noteq> code (currency \<lparr>minor = 100, currency = \<lparr>code = ''EUR'', decimals = 2, symbol = ''E'', locale = None\<rparr>\<rparr>)
   \<and> compare \<lparr>minor = 100, currency = \<lparr>code = ''USD'', decimals = 2, symbol = ''$'', locale = None\<rparr>\<rparr>
        (OfMoney \<lparr>minor = 100, currency = \<lparr>code = ''EUR'', decimals = 2, symbol = ''E'', locale = None\<rparr>\<rparr>)
       = Inl (CurrencyMismatchError ''USD'' ''EUR'')
   \<and> equals \<lparr>minor = 100, currency = \<lparr>code = ''USD'', decimals = 2, symbol = ''$'', locale = None\<rparr>\<rparr>
        (OfMoney \<lparr>minor = 250, currency = \<lparr>code = ''USD'', decimals = 2, symbol = ''$'', locale = None\<rparr>\<rparr>)
       = Inr False
   \<and> compare \<lparr>minor = 100, currency = \<lparr>code = ''USD'', decimals = 2, symbol = ''$'', locale = None\<rparr>\<rparr>
        (OfMoney \<lparr>minor = 250, currency = \<lparr>code = ''USD'', decimals = 2, symbol = ''$'', locale = None\<rparr>\<rparr>)
       = Inr (- 1)"
  using comparison_currency_check
      [of "\<lparr>minor = 100, currency = \<lparr>code = ''USD'', decimals = 2, symbol = ''$'', locale = None\<rparr>\<rparr>"
          "\<lparr>minor = 100, currency = \<lparr>code = ''EUR'', decimals = 2, symbol = ''E'', locale = None\<rparr>\<rparr>"]
    comparison_currency_check
      [of "\<lparr>minor = 100, currency = \<lparr>code = ''USD'', decimals = 2, symbol = ''$'', locale = None\<rparr>\<rparr>"
          "\<lparr>minor = 250, currency = \<lparr>code = ''USD'', decimals = 2, symbol = ''$'', locale = None\<rparr>\<rparr>"]
  by simp

section \<open>Allocation\<close>

subsection \<open>Insertion sort with a comparator\<close>

lemma mset_insert_sorted: "mset (insert_sorted cmp x ys) = add_mset x (mset ys)"
  by (induction ys) simp_all

lemma set_insert_sorted: "set (insert_sorted cmp x ys) = insert x (set ys)"
  by (induction ys) auto

lemma mset_array_sort: "mset (array_sort cmp xs) = mset xs"
  by (induction xs) (simp_all add: array_sort_def mset_insert_sorted)

lemma set_array_sort: "set (array_sort cmp xs) = set xs"
  using mset_array_sort [of cmp xs] by (metis set_mset_mset)

lemma length_array_sort: "length (array_sort cmp xs) = length xs"
  using mset_array_sort [of cmp xs] by (metis size_mset)

lemma insert_sorted_by_remainder:
  assumes "sorted_wrt entry_before ys" and "\<forall>y \<in> set ys. index x < index y"
  shows "sorted_wrt entry_before (insert_sorted by_remainder_desc x ys)"
  using assms
proof (induction ys)
  case Nil
  then show ?case by simp
next
  case (Cons y ys)
  show ?case
  proof (cases "by_remainder_desc x y \<le> 0")
    case True
    then have xy: "remainder y \<le> remainder x"
      by (simp add: by_remainder_desc_def split: if_splits)
    have "entry_before x z" if "z \<in> set (y # ys)" for z
    proof -
      from that Cons.prems(1) have "remainder z \<le> remainder y"
        by (auto simp add: entry_before_def)
      moreover from that Cons.prems(2) have "index x < index z" by auto
      ultimately show ?thesis using xy by (auto simp add: entry_before_def)
    qed
    with True Cons.prems(1) show ?thesis by simp
  next
    case False
    then have yx: "entry_before y x"
      by (simp add: by_remainder_desc_def entry_before_def split: if_splits)
    from Cons have "sorted_wrt entry_before (insert_sorted by_remainder_desc x ys)" by simp
    moreover have "\<forall>z \<in> set (insert_sorted by_remainder_desc x ys). entry_before y z"
    proof -
      have "set (insert_sorted by_remainder_desc x ys) = insert x (set ys)"
        by (rule set_insert_sorted)
      with yx Cons.prems(1) show ?thesis by simp
    qed
    ultimately show ?thesis using False by simp
  qed
qed

lemma array_sort_by_remainder:
  "sorted_wrt (\<lambda>a b. index a < index b) xs \<Longrightarrow>
     sorted_wrt entry_before (array_sort by_remainder_desc xs)"
proof (induction xs)
  case Nil
  then show ?case by (simp add: array_sort_def)
next
  case (Cons x xs)
  then have "sorted_wrt entry_before (array_sort by_remainder_desc xs)" by simp
  moreover from Cons.prems have "\<forall>y \<in> set (array_sort by_remainder_desc xs). index x < index y"
    by (simp add: set_array_sort)
  ultimately have "sorted_wrt entry_before
      (insert_sorted by_remainder_desc x (array_sort by_remainder_desc xs))"
    by (rule insert_sorted_by_remainder)
  then show ?case by (simp add: array_sort_def)
qed

lemma by_index_le: "by_index a b \<le> 0 \<longleftrightarrow> index a \<le> index b"
  by (simp add: by_index_def)

lemma insert_sorted_by_index:
  "sorted (map index ys) \<Longrightarrow> sorted (map index (insert_sorted by_index x ys))"
  by (induction ys) (auto simp add: by_index_le set_insert_sorted)

lemma array_sort_by_index: "sorted (map index (array_sort by_index xs))"
  by (induction xs) (simp_all add: array_sort_def insert_sorted_by_index)

subsection \<open>The share loop and the leftover loop\<close>

lemma share_loop_eq:
  "share_loop amount t i ws acc tot =
     (acc @ map (mk_entry amount t) (enumerate i ws),
      tot + sum_list (map (\<lambda>w. bigint_div (amount * w) t) ws))"
  by (induction ws arbitrary: i acc tot) (simp_all add: mk_entry_def)

lemma leftover_loop_nth:
  "nat leftOver \<le> length xs \<Longrightarrow>
     \<exists>ys. leftover_loop i leftOver xs = Inr ys \<and> length ys = length xs
        \<and> (\<forall>k < length xs. ys ! k = (if i \<le> k \<and> int k < leftOver then bump (xs ! k) else xs ! k))"
proof (induction i leftOver xs rule: leftover_loop.induct)
  case (1 i leftOver results)
  show ?case
  proof (cases "int i < leftOver")
    case False
    then show ?thesis by (simp add: leftover_loop.simps [of i])
  next
    case True
    with "1.prems" have il: "i < length results" by linarith
    let ?xs = "results[i := (results ! i)\<lparr>share := share (results ! i) + 1\<rparr>]"
    from "1.prems" have "nat leftOver \<le> length ?xs" by simp
    with "1.IH" [OF True il] obtain ys where ys: "leftover_loop (Suc i) leftOver ?xs = Inr ys"
      "length ys = length ?xs"
      "\<forall>k < length ?xs. ys ! k = (if Suc i \<le> k \<and> int k < leftOver then bump (?xs ! k) else ?xs ! k)"
      by blast
    have "leftover_loop i leftOver results = Inr ys"
      using True il ys(1) by (simp add: leftover_loop.simps [of i])
    moreover have "length ys = length results" using ys(2) by simp
    moreover have "ys ! k = (if i \<le> k \<and> int k < leftOver then bump (results ! k) else results ! k)"
      if "k < length results" for k
    proof (cases "k = i")
      case True
      with ys(3) that \<open>int i < leftOver\<close> show ?thesis by (simp add: bump_def)
    next
      case False
      with ys(3) that show ?thesis by auto
    qed
    ultimately show ?thesis by blast
  qed
qed

subsection \<open>The leftover is at most the number of ratios\<close>

lemma shares_remainders_total:
  "sum_list (map (\<lambda>w. bigint_div (a * w) t) ws) * t + sum_list (map (\<lambda>w. bigint_mod (a * w) t) ws)
     = a * sum_list ws"
proof (induction ws)
  case Nil
  then show ?case by simp
next
  case (Cons w ws)
  have "(bigint_div (a * w) t + sum_list (map (\<lambda>w. bigint_div (a * w) t) ws)) * t
        + (bigint_mod (a * w) t + sum_list (map (\<lambda>w. bigint_mod (a * w) t) ws))
      = (bigint_div (a * w) t * t + bigint_mod (a * w) t)
        + (sum_list (map (\<lambda>w. bigint_div (a * w) t) ws) * t
           + sum_list (map (\<lambda>w. bigint_mod (a * w) t) ws))"
    by (simp add: algebra_simps)
  also have "\<dots> = a * w + a * sum_list ws"
    by (simp only: bigint_div_mod Cons.IH)
  finally show ?case by (simp add: algebra_simps)
qed

lemma remainders_bound:
  "t \<noteq> 0 \<Longrightarrow> \<bar>sum_list (map (\<lambda>w. bigint_mod (a * w) t) ws)\<bar> \<le> int (length ws) * \<bar>t\<bar>"
proof (induction ws)
  case Nil
  then show ?case by simp
next
  case (Cons w ws)
  from Cons.prems have "\<bar>bigint_mod (a * w) t\<bar> < \<bar>t\<bar>" by (rule bigint_mod_abs_less)
  with Cons show ?case by (simp add: algebra_simps)
qed

lemma leftover_bound:
  assumes "sum_list ws \<noteq> 0"
  shows "\<bar>a - sum_list (map (\<lambda>w. bigint_div (a * w) (sum_list ws)) ws)\<bar> \<le> int (length ws)"
proof -
  let ?t = "sum_list ws"
  let ?l = "a - sum_list (map (\<lambda>w. bigint_div (a * w) ?t) ws)"
  have "?l * ?t = sum_list (map (\<lambda>w. bigint_mod (a * w) ?t) ws)"
    using shares_remainders_total [of a ?t ws] by (simp add: algebra_simps)
  then have "\<bar>?l\<bar> * \<bar>?t\<bar> \<le> int (length ws) * \<bar>?t\<bar>"
    using remainders_bound [OF assms, of a ws] by (simp add: abs_mult)
  with assms show ?thesis by simp
qed

subsection \<open>Position in the sorted array\<close>

lemma entry_before_asym: "entry_before a b \<Longrightarrow> \<not> entry_before b a"
  by (auto simp add: entry_before_def)

lemma entry_before_irrefl: "\<not> entry_before a a"
  by (simp add: entry_before_def)

lemma sorted_position:
  assumes "sorted_wrt entry_before S" and "k < length S"
  shows "length (filter (\<lambda>e. entry_before e (S ! k)) S) = k"
proof -
  have split: "S = take k S @ S ! k # drop (Suc k) S"
    using assms(2) by (rule id_take_nth_drop)
  with assms(1) have sw: "sorted_wrt entry_before (take k S @ S ! k # drop (Suc k) S)" by simp
  from sw have before: "\<forall>e \<in> set (take k S). entry_before e (S ! k)"
    by (simp add: sorted_wrt_append)
  from sw have after: "\<forall>e \<in> set (drop (Suc k) S). entry_before (S ! k) e"
    by (simp add: sorted_wrt_append)
  have "filter (\<lambda>e. entry_before e (S ! k)) (take k S) = take k S"
    using before by (simp add: filter_id_conv)
  moreover have "filter (\<lambda>e. entry_before e (S ! k)) (S ! k # drop (Suc k) S) = []"
    using after by (auto simp add: filter_empty_conv entry_before_irrefl dest: entry_before_asym)
  ultimately have "filter (\<lambda>e. entry_before e (S ! k)) (take k S @ S ! k # drop (Suc k) S) = take k S"
    by (simp only: filter_append append_Nil2)
  with split have "filter (\<lambda>e. entry_before e (S ! k)) S = take k S" by simp
  with assms(2) show ?thesis by simp
qed

lemma enumerate_upt: "enumerate 0 ws = map (\<lambda>j. (j, ws ! j)) [0..<length ws]"
proof -
  have "enumerate 0 (map (\<lambda>j. ws ! j) [0..<length ws]) = map (\<lambda>j. (j, ws ! j)) [0..<length ws]"
    by (rule enumerate_map_upt)
  then show ?thesis by (simp only: map_nth)
qed

lemma fold_add_sum_list: "fold (\<lambda>r sum. sum + r) ws (acc :: int) = acc + sum_list ws"
  by (induction ws arbitrary: acc) simp_all

lemma map_throwing_length: "map_throwing f xs = Inr ys \<Longrightarrow> length ys = length xs"
  by (induction xs arbitrary: ys) (auto split: sum.splits)

lemma length_normalizedRatios: "length (normalizedRatios scaled) = length scaled"
  by (simp add: normalizedRatios_def)

lemma allocate_normalized:
  assumes ok: "map_throwing scaleRatio ratios = Inr scaled"
    and ne: "ratios \<noteq> []"
    and tot: "sum_list (normalizedRatios scaled) \<noteq> 0"
  shows "allocate amount ratios = Inr (base_allocation amount (normalizedRatios scaled))"
proof -
  define ws where "ws = normalizedRatios scaled"
  define t where "t = sum_list ws"
  define n where "n = length ws"
  define f where "f = (\<lambda>j. mk_entry amount t (j, ws ! j))"
  define E where "E = map f [0..<n]"
  define l where "l = amount - sum_list (map (\<lambda>w. bigint_div (amount * w) t) ws)"
  define S where "S = array_sort by_remainder_desc E"
  have t0: "t \<noteq> 0" using tot by (simp add: t_def ws_def)
  have loop1: "share_loop amount t 0 ws [] 0 = (E, sum_list (map (\<lambda>w. bigint_div (amount * w) t) ws))"
    by (simp add: share_loop_eq enumerate_upt E_def f_def n_def)
  have lenE: "length E = n" by (simp add: E_def)
  have lenS: "length S = n" by (simp add: S_def length_array_sort lenE)
  have "\<bar>l\<bar> \<le> int n"
    unfolding l_def n_def t_def using tot [folded ws_def] by (rule leftover_bound)
  then have "nat l \<le> length S" using lenS by linarith
  from leftover_loop_nth [OF this, of 0] obtain B where
    B: "leftover_loop 0 l S = Inr B" and lenB: "length B = n"
    and Bk: "\<And>k. k < n \<Longrightarrow> B ! k = (if int k < l then bump (S ! k) else S ! k)"
    using lenS by auto
  define F where "F = array_sort by_index B"
  have alloc: "allocate amount ratios = Inr (map share F)"
    using ne ok t0 loop1 B
    by (simp add: allocate_def fold_add_sum_list ws_def [symmetric] t_def [symmetric]
        l_def [symmetric] S_def [symmetric] F_def [symmetric])
  have lenF: "length F = n" by (simp add: F_def length_array_sort lenB)
  have idxE: "map index E = [0..<n]"
    by (simp add: E_def f_def mk_entry_def comp_def)
  have idxB: "map index B = map index S"
    by (rule nth_equalityI) (simp_all add: lenB lenS Bk bump_def)
  have "mset (map index F) = mset (map index B)"
    by (simp add: F_def mset_array_sort)
  also have "\<dots> = mset (map index S)" by (simp only: idxB)
  also have "\<dots> = mset (map index E)" by (simp add: S_def mset_array_sort)
  finally have "mset (map index F) = mset [0..<n]" by (simp only: idxE)
  moreover have "sorted (map index F)" unfolding F_def by (rule array_sort_by_index)
  ultimately have "sort [0..<n] = map index F" by (rule properties_for_sort)
  then have idxF: "map index F = [0..<n]" by (simp add: sorted_sort_id)
  have sortedS: "sorted_wrt entry_before S"
    unfolding S_def
  proof (rule array_sort_by_remainder)
    have "sorted_wrt (<) (map index E)" by (simp only: idxE sorted_wrt_upt)
    then show "sorted_wrt (\<lambda>a b. index a < index b) E" by (simp add: sorted_wrt_map)
  qed
  have rank: "length (filter (\<lambda>e. entry_before e (f i)) E)
      = spec_rank (base_remainders amount ws) i" if "i < n" for i
  proof -
    have "filter (\<lambda>e. entry_before e (f i)) E
        = map f (filter (\<lambda>j. entry_before (f j) (f i)) [0..<n])"
      by (simp add: E_def filter_map comp_def)
    moreover have "filter (\<lambda>j. entry_before (f j) (f i)) [0..<n]
        = filter (\<lambda>j. spec_before (base_remainders amount ws) j i) [0..<n]"
      using that
      by (intro filter_cong refl)
        (simp add: entry_before_def spec_before_def base_remainders_def f_def mk_entry_def
          n_def t_def)
    ultimately show ?thesis
      by (simp add: spec_rank_def base_remainders_def n_def)
  qed
  have "map share F = base_allocation amount ws"
  proof (rule nth_equalityI)
    show "length (map share F) = length (base_allocation amount ws)"
      by (simp add: lenF base_allocation_def n_def)
  next
    fix i assume "i < length (map share F)"
    then have i: "i < n" by (simp add: lenF)
    from idxF i lenF have Fi: "index (F ! i) = i"
      by (metis nth_map nth_upt add_0 length_map)
    have "F ! i \<in> set F" using i lenF by simp
    then have "F ! i \<in> set B" by (simp add: F_def set_array_sort)
    then obtain k where k: "k < n" "F ! i = B ! k"
      using lenB by (auto simp add: in_set_conv_nth)
    have idxSk: "index (S ! k) = i"
      using Fi k Bk [OF k(1)] by (simp add: bump_def split: if_splits)
    have "S ! k \<in> set S" using k(1) lenS by simp
    then have "S ! k \<in> set E" by (simp add: S_def set_array_sort)
    then obtain j where j: "j < n" "S ! k = f j"
      by (auto simp add: E_def)
    with idxSk have "j = i" by (simp add: f_def mk_entry_def)
    with j have Sk: "S ! k = f i" by simp
    have "k = length (filter (\<lambda>e. entry_before e (S ! k)) S)"
      using sortedS k(1) lenS by (simp add: sorted_position)
    also have "\<dots> = size (filter_mset (\<lambda>e. entry_before e (f i)) (mset S))"
      by (simp add: Sk flip: mset_filter)
    also have "\<dots> = length (filter (\<lambda>e. entry_before e (f i)) E)"
      by (simp add: S_def mset_array_sort flip: mset_filter)
    also have "\<dots> = spec_rank (base_remainders amount ws) i" using i by (rule rank)
    finally have kr: "k = spec_rank (base_remainders amount ws) i" .
    have "share (F ! i) = share (f i) + (if int k < l then 1 else 0)"
      using k Bk [OF k(1)] Sk by (simp add: bump_def)
    moreover have "share (f i) = base_shares amount ws ! i"
      using i by (simp add: f_def mk_entry_def base_shares_def n_def t_def)
    moreover have "l = base_leftover amount ws"
      by (simp add: l_def base_leftover_def base_shares_def t_def)
    ultimately show "map share F ! i = base_allocation amount ws ! i"
      using i kr by (simp add: lenF base_allocation_def n_def)
  qed
  with alloc show ?thesis by (simp add: ws_def)
qed

subsection \<open>The rank is a bijection on positions\<close>

lemma spec_rank_card:
  "spec_rank rems i = card {j \<in> {0..<length rems}. spec_before rems j i}"
proof -
  have "spec_rank rems i = card ({j. spec_before rems j i} \<inter> set [0..<length rems])"
    unfolding spec_rank_def by (rule distinct_length_filter) simp
  also have "{j. spec_before rems j i} \<inter> set [0..<length rems]
      = {j \<in> {0..<length rems}. spec_before rems j i}"
    by auto
  finally show ?thesis .
qed

lemma spec_before_trans:
  "spec_before rems a b \<Longrightarrow> spec_before rems b c \<Longrightarrow> spec_before rems a c"
  by (auto simp add: spec_before_def)

lemma spec_before_irrefl: "\<not> spec_before rems a a"
  by (simp add: spec_before_def)

lemma spec_before_total: "a \<noteq> b \<Longrightarrow> spec_before rems a b \<or> spec_before rems b a"
  by (auto simp add: spec_before_def)

lemma spec_rank_mono:
  assumes "spec_before rems j i" and "j < length rems"
  shows "spec_rank rems j < spec_rank rems i"
proof -
  let ?A = "{x \<in> {0..<length rems}. spec_before rems x j}"
  let ?B = "{x \<in> {0..<length rems}. spec_before rems x i}"
  have "?A \<subseteq> ?B" using assms(1) by (auto intro: spec_before_trans)
  moreover have "j \<in> ?B" using assms by simp
  moreover have "j \<notin> ?A" by (simp add: spec_before_irrefl)
  ultimately have "?A \<subset> ?B" by blast
  moreover have "finite ?B" by simp
  ultimately have "card ?A < card ?B" by (rule psubset_card_mono [rotated])
  then show ?thesis by (simp only: spec_rank_card)
qed

lemma spec_rank_less: "i < length rems \<Longrightarrow> spec_rank rems i < length rems"
proof -
  assume i: "i < length rems"
  have "{j \<in> {0..<length rems}. spec_before rems j i} \<subseteq> {0..<length rems} - {i}"
    by (auto simp add: spec_before_irrefl)
  then have "card {j \<in> {0..<length rems}. spec_before rems j i} \<le> card ({0..<length rems} - {i})"
    by (intro card_mono) simp_all
  also have "\<dots> < length rems" using i by simp
  finally show ?thesis by (simp only: spec_rank_card)
qed

lemma spec_rank_inj: "inj_on (spec_rank rems) {0..<length rems}"
proof (rule inj_onI)
  fix a b assume a: "a \<in> {0..<length rems}" and b: "b \<in> {0..<length rems}"
    and eq: "spec_rank rems a = spec_rank rems b"
  show "a = b"
  proof (rule ccontr)
    assume "a \<noteq> b"
    then consider "spec_before rems a b" | "spec_before rems b a"
      using spec_before_total by blast
    then show False
    proof cases
      case 1
      with a have "spec_rank rems a < spec_rank rems b" by (simp add: spec_rank_mono)
      with eq show False by simp
    next
      case 2
      with b have "spec_rank rems b < spec_rank rems a" by (simp add: spec_rank_mono)
      with eq show False by simp
    qed
  qed
qed

lemma spec_rank_bij: "bij_betw (spec_rank rems) {0..<length rems} {0..<length rems}"
proof -
  have "spec_rank rems ` {0..<length rems} \<subseteq> {0..<length rems}"
    by (auto simp add: spec_rank_less)
  moreover have "card (spec_rank rems ` {0..<length rems}) = card {0..<length rems}"
    using spec_rank_inj by (rule card_image)
  ultimately have "spec_rank rems ` {0..<length rems} = {0..<length rems}"
    by (intro card_subset_eq) simp_all
  with spec_rank_inj show ?thesis by (simp add: bij_betw_def)
qed

lemma spec_rank_count:
  assumes "L \<le> length rems"
  shows "length (filter (\<lambda>i. spec_rank rems i < L) [0..<length rems]) = L"
proof -
  let ?n = "length rems"
  have "length (filter (\<lambda>i. spec_rank rems i < L) [0..<?n])
      = card ({i. spec_rank rems i < L} \<inter> set [0..<?n])"
    by (rule distinct_length_filter) simp
  also have "{i. spec_rank rems i < L} \<inter> set [0..<?n]
      = {i \<in> {0..<?n}. spec_rank rems i \<in> {0..<L}}"
    by auto
  also have "card \<dots> = card {0..<L}"
  proof (rule bij_betw_same_card)
    show "bij_betw (spec_rank rems) {i \<in> {0..<?n}. spec_rank rems i \<in> {0..<L}} {0..<L}"
      unfolding bij_betw_def
    proof
      show "inj_on (spec_rank rems) {i \<in> {0..<?n}. spec_rank rems i \<in> {0..<L}}"
        using spec_rank_inj [of rems] by (rule inj_on_subset) auto
    next
      show "spec_rank rems ` {i \<in> {0..<?n}. spec_rank rems i \<in> {0..<L}} = {0..<L}"
      proof
        show "spec_rank rems ` {i \<in> {0..<?n}. spec_rank rems i \<in> {0..<L}} \<subseteq> {0..<L}"
          by auto
      next
        show "{0..<L} \<subseteq> spec_rank rems ` {i \<in> {0..<?n}. spec_rank rems i \<in> {0..<L}}"
        proof
          fix k assume k: "k \<in> {0..<L}"
          with assms have "k \<in> {0..<?n}" by simp
          then have "k \<in> spec_rank rems ` {0..<?n}"
            using spec_rank_bij [of rems] by (simp add: bij_betw_def)
          then obtain i where "i \<in> {0..<?n}" "k = spec_rank rems i" by auto
          with k show "k \<in> spec_rank rems ` {i \<in> {0..<?n}. spec_rank rems i \<in> {0..<L}}"
            by auto
        qed
      qed
    qed
  qed
  finally show ?thesis by simp
qed

subsection \<open>Conservation for a non-negative amount and non-negative ratios\<close>

lemma sum_list_indicator:
  "sum_list (map (\<lambda>i. s i + (if c i then 1 else 0)) xs)
     = sum_list (map s xs) + int (length (filter c xs))"
  by (induction xs) simp_all

lemma base_leftover_times_total:
  "base_leftover amount ws * sum_list ws = sum_list (base_remainders amount ws)"
  using shares_remainders_total [of amount "sum_list ws" ws]
  by (simp add: base_leftover_def base_shares_def base_remainders_def algebra_simps)

lemma base_remainders_nonneg:
  assumes "0 \<le> amount" and "\<forall>w \<in> set ws. 0 \<le> w"
  shows "\<forall>r \<in> set (base_remainders amount ws). 0 \<le> r"
  using assms by (auto simp add: base_remainders_def intro: bigint_mod_sign_nonneg)

lemma base_leftover_range:
  assumes "0 \<le> amount" and "\<forall>w \<in> set ws. 0 \<le> w" and "0 < sum_list ws"
  shows "0 \<le> base_leftover amount ws \<and> base_leftover amount ws \<le> int (length ws)"
proof -
  have "0 \<le> sum_list (base_remainders amount ws)"
    using base_remainders_nonneg [OF assms(1,2)] by (simp add: sum_list_nonneg)
  then have "0 \<le> base_leftover amount ws * sum_list ws"
    by (simp only: base_leftover_times_total)
  with assms(3) have "0 \<le> base_leftover amount ws"
    by (simp add: zero_le_mult_iff)
  moreover have "\<bar>base_leftover amount ws\<bar> \<le> int (length ws)"
    using assms(3) leftover_bound [of ws amount]
    by (simp add: base_leftover_def base_shares_def)
  ultimately show ?thesis by simp
qed

lemma base_allocation_sum:
  assumes "0 \<le> amount" and "\<forall>w \<in> set ws. 0 \<le> w" and "0 < sum_list ws"
  shows "sum_list (base_allocation amount ws) = amount"
proof -
  let ?rems = "base_remainders amount ws"
  let ?l = "base_leftover amount ws"
  have len: "length ?rems = length ws" by (simp add: base_remainders_def)
  from base_leftover_range [OF assms] have l: "0 \<le> ?l" "nat ?l \<le> length ?rems"
    unfolding len by linarith+
  have "sum_list (base_allocation amount ws)
      = sum_list (map (\<lambda>i. base_shares amount ws ! i) [0..<length ws])
        + int (length (filter (\<lambda>i. int (spec_rank ?rems i) < ?l) [0..<length ws]))"
    unfolding base_allocation_def by (rule sum_list_indicator)
  also have "map (\<lambda>i. base_shares amount ws ! i) [0..<length ws] = base_shares amount ws"
    using map_nth [of "base_shares amount ws"] by (simp add: base_shares_def)
  also have "filter (\<lambda>i. int (spec_rank ?rems i) < ?l) [0..<length ws]
      = filter (\<lambda>i. spec_rank ?rems i < nat ?l) [0..<length ?rems]"
    using l(1) by (simp add: len zless_nat_eq_int_zless)
  also have "length \<dots> = nat ?l" using l(2) by (rule spec_rank_count)
  finally show ?thesis using l(1) by (simp add: base_leftover_def)
qed

lemma sum_list_positive_count:
  assumes "\<forall>r \<in> set rs. 0 \<le> r \<and> r < t"
  shows "sum_list rs \<le> (t - 1) * int (length (filter (\<lambda>r. 0 < r) rs))"
  using assms
proof (induction rs)
  case Nil
  then show ?case by simp
next
  case (Cons r rs)
  then have ih: "sum_list rs \<le> (t - 1) * int (length (filter (\<lambda>r. 0 < r) rs))" by simp
  from Cons.prems have r: "0 \<le> r" "r \<le> t - 1" by simp_all
  show ?case
  proof (cases "0 < r")
    case True
    with ih r show ?thesis by (simp add: algebra_simps)
  next
    case False
    with r have "r = 0" by simp
    with ih show ?thesis by simp
  qed
qed

lemma positive_count_le_rank:
  assumes "i < length rems" and "rems ! i \<le> 0"
  shows "length (filter (\<lambda>r. 0 < r) rems) \<le> spec_rank rems i"
proof -
  have "filter (\<lambda>r. 0 < r) (map (\<lambda>j. rems ! j) [0..<length rems])
      = map (\<lambda>j. rems ! j) (filter (\<lambda>j. 0 < rems ! j) [0..<length rems])"
    by (simp add: filter_map comp_def)
  then have "length (filter (\<lambda>r. 0 < r) rems)
      = length (filter (\<lambda>j. 0 < rems ! j) [0..<length rems])"
    by (simp add: map_nth)
  also have "\<dots> = card ({j. 0 < rems ! j} \<inter> set [0..<length rems])"
    by (rule distinct_length_filter) simp
  also have "\<dots> \<le> card {j \<in> {0..<length rems}. spec_before rems j i}"
    using assms(2) by (intro card_mono) (auto simp add: spec_before_def)
  finally show ?thesis by (simp only: spec_rank_card)
qed

lemma bumped_remainder_positive:
  assumes "0 \<le> amount" and "\<forall>w \<in> set ws. 0 \<le> w" and "0 < sum_list ws"
    and "i < length ws"
    and "int (spec_rank (base_remainders amount ws) i) < base_leftover amount ws"
  shows "0 < base_remainders amount ws ! i"
proof (rule ccontr)
  let ?rems = "base_remainders amount ws"
  let ?t = "sum_list ws"
  let ?l = "base_leftover amount ws"
  let ?k = "int (spec_rank ?rems i)"
  assume "\<not> 0 < ?rems ! i"
  then have z: "?rems ! i \<le> 0" by simp
  have len: "length ?rems = length ws" by (simp add: base_remainders_def)
  have bounds: "\<forall>r \<in> set ?rems. 0 \<le> r \<and> r < ?t"
  proof
    fix r assume "r \<in> set ?rems"
    then obtain w where w: "w \<in> set ws" "r = bigint_mod (amount * w) ?t"
      by (auto simp add: base_remainders_def)
    with assms(1,2) have "0 \<le> r" by (simp add: bigint_mod_sign_nonneg)
    moreover have "\<bar>r\<bar> < \<bar>?t\<bar>"
      unfolding w(2) using assms(3) by (intro bigint_mod_abs_less) simp
    ultimately show "0 \<le> r \<and> r < ?t" using assms(3) by simp
  qed
  have "?l * ?t = sum_list ?rems" by (rule base_leftover_times_total)
  also have "\<dots> \<le> (?t - 1) * int (length (filter (\<lambda>r. 0 < r) ?rems))"
    using bounds by (rule sum_list_positive_count)
  also have "\<dots> \<le> (?t - 1) * ?k"
    using positive_count_le_rank [of i ?rems] assms(3,4) z
    by (intro mult_left_mono) (simp_all add: len)
  finally have le: "?l * ?t \<le> (?t - 1) * ?k" .
  from assms(5) have "?k + 1 \<le> ?l" by simp
  with assms(3) have "(?k + 1) * ?t \<le> ?l * ?t" by (intro mult_right_mono) simp_all
  with le have "(?k + 1) * ?t \<le> (?t - 1) * ?k" by simp
  then have "?t + ?k \<le> 0" by (simp add: algebra_simps)
  with assms(3) show False by simp
qed

lemma base_allocation_close:
  assumes "0 \<le> amount" and "\<forall>w \<in> set ws. 0 \<le> w" and "0 < sum_list ws"
    and "i < length ws"
  shows "\<bar>base_allocation amount ws ! i * sum_list ws - amount * ws ! i\<bar> < sum_list ws"
proof -
  let ?t = "sum_list ws"
  let ?r = "bigint_mod (amount * ws ! i) ?t"
  let ?s = "bigint_div (amount * ws ! i) ?t"
  have eq: "?s * ?t + ?r = amount * ws ! i" by (rule bigint_div_mod)
  from assms(2,4) have "0 \<le> ws ! i" by simp
  with assms(1) have r0: "0 \<le> ?r" by (simp add: bigint_mod_sign_nonneg)
  have "\<bar>?r\<bar> < \<bar>?t\<bar>" using assms(3) by (intro bigint_mod_abs_less) simp
  with r0 assms(3) have rt: "?r < ?t" by simp
  have ri: "base_remainders amount ws ! i = ?r" using assms(4) by (simp add: base_remainders_def)
  have si: "base_shares amount ws ! i = ?s" using assms(4) by (simp add: base_shares_def)
  show ?thesis
  proof (cases "int (spec_rank (base_remainders amount ws) i) < base_leftover amount ws")
    case True
    with assms have "0 < ?r" using bumped_remainder_positive [of amount ws i] by (simp add: ri)
    moreover from True assms(4) have "base_allocation amount ws ! i = ?s + 1"
      by (simp add: base_allocation_def si)
    then have "base_allocation amount ws ! i * ?t - amount * ws ! i = ?t - ?r"
      using eq by (simp add: algebra_simps)
    ultimately show ?thesis using rt by simp
  next
    case False
    with assms(4) have "base_allocation amount ws ! i = ?s"
      by (simp add: base_allocation_def si)
    then have "base_allocation amount ws ! i * ?t - amount * ws ! i = - ?r"
      using eq by (simp add: algebra_simps)
    then show ?thesis using r0 rt by simp
  qed
qed

text \<open>
  Where the allocation does conserve: for a non-negative amount and non-negative
  normalized ratios of positive total, the parts sum to the amount and each part is less
  than one unit away from its exact proportional share.
\<close>

lemma allocate_conserves_nonneg:
  assumes "ratios \<noteq> []"
    and "map_throwing scaleRatio ratios = Inr scaled"
    and "0 \<le> amount"
    and "\<forall>w \<in> set (normalizedRatios scaled). 0 \<le> w"
    and "0 < sum_list (normalizedRatios scaled)"
  shows "\<exists>parts. allocate amount ratios = Inr parts \<and> length parts = length ratios
           \<and> sum_list parts = amount
           \<and> (\<forall>i < length parts.
                \<bar>parts ! i * sum_list (normalizedRatios scaled)
                   - amount * normalizedRatios scaled ! i\<bar> < sum_list (normalizedRatios scaled))"
proof -
  let ?ws = "normalizedRatios scaled"
  from assms(5) have "sum_list ?ws \<noteq> 0" by simp
  with assms(2,1) have a: "allocate amount ratios = Inr (base_allocation amount ?ws)"
    by (rule allocate_normalized)
  have l: "length (base_allocation amount ?ws) = length ?ws"
    by (simp add: base_allocation_def)
  have l': "length ?ws = length ratios"
    using map_throwing_length [OF assms(2)] by (simp add: length_normalizedRatios)
  have s: "sum_list (base_allocation amount ?ws) = amount"
    using assms(3,4,5) by (rule base_allocation_sum)
  have c: "\<forall>i < length (base_allocation amount ?ws).
      \<bar>base_allocation amount ?ws ! i * sum_list ?ws - amount * ?ws ! i\<bar> < sum_list ?ws"
    using assms(3,4,5) by (simp add: l base_allocation_close)
  from a l l' s c show ?thesis by simp
qed

subsection \<open>The code against the specification's algorithm\<close>

lemma base_spec_agree:
  assumes "0 \<le> amount" and "\<forall>w \<in> set ws. 0 \<le> w" and "0 < sum_list ws"
  shows "base_allocation amount ws = spec_allocation amount ws"
proof -
  have p: "0 \<le> amount * w" if "w \<in> set ws" for w
    using that assms(1,2) by simp
  have sh: "base_shares amount ws = spec_shares amount ws"
    unfolding base_shares_def spec_shares_def
    using p assms(3) by (intro map_cong refl bigint_div_nonneg) simp_all
  have re: "base_remainders amount ws = spec_remainders amount ws"
    unfolding base_remainders_def spec_remainders_def
    using p assms(3) by (intro map_cong refl bigint_mod_nonneg) simp_all
  have le: "base_leftover amount ws = spec_leftover amount ws"
    by (simp add: base_leftover_def spec_leftover_def sh)
  show ?thesis
    by (simp add: base_allocation_def spec_allocation_def sh re le)
qed

text \<open>
  Where the code follows the specification: on a call with at least one ratio, whose
  ratios all scale to non-negative normalized ratios of positive total, and with a
  non-negative amount, \<open>allocate\<close> returns the allocation of the specification, in the
  order of the weights; 10000 split by 1, 1, 1 is 3334, 3333, 3333.
\<close>

lemma allocate_largest_remainder_nonneg:
  assumes "ratios \<noteq> []"
    and "map_throwing scaleRatio ratios = Inr scaled"
    and "0 \<le> amount"
    and "\<forall>w \<in> set (normalizedRatios scaled). 0 \<le> w"
    and "0 < sum_list (normalizedRatios scaled)"
  shows "allocate amount ratios = Inr (spec_allocation amount (normalizedRatios scaled))
       \<and> length (spec_allocation amount (normalizedRatios scaled)) = length ratios
       \<and> allocate 10000 [''1'', ''1'', ''1''] = Inr [3334, 3333, 3333]"
proof -
  from assms(5) have "sum_list (normalizedRatios scaled) \<noteq> 0" by simp
  with assms(2,1) have "allocate amount ratios = Inr (base_allocation amount (normalizedRatios scaled))"
    by (rule allocate_normalized)
  then have "allocate amount ratios = Inr (spec_allocation amount (normalizedRatios scaled))"
    using base_spec_agree [OF assms(3,4,5)] by simp
  moreover have "length (spec_allocation amount (normalizedRatios scaled)) = length ratios"
    using map_throwing_length [OF assms(2)]
    by (simp add: spec_allocation_def length_normalizedRatios)
  moreover have "allocate 10000 [''1'', ''1'', ''1''] = Inr [3334, 3333, 3333]"
    by code_simp
  ultimately show ?thesis by simp
qed

text \<open>
  C7, evaluated on the code. The call with the amount -100 and the ratios 1, 1, 1 is
  valid (three ratios, total 3). The specification's algorithm gives every position the
  floor share -34 and the remainder 2, so the leftover is 2 and, the remainders being
  equal, the two units go to the positions 0 and 1: -33, -33, -34. The code truncates
  the shares to -33, its leftover is -1, it hands out nothing and returns -33, -33, -33.
\<close>

theorem allocate_negative_amount_distribution:
  "map_throwing scaleRatio [''1'', ''1'', ''1''] = Inr [(1, 0), (1, 0), (1, 0)]
   \<and> normalizedRatios [(1, 0), (1, 0), (1, 0)] = [1, 1, 1]
   \<and> spec_shares (- 100) [1, 1, 1] = [- 34, - 34, - 34]
   \<and> spec_remainders (- 100) [1, 1, 1] = [2, 2, 2]
   \<and> spec_leftover (- 100) [1, 1, 1] = 2
   \<and> spec_allocation (- 100) [1, 1, 1] = [- 33, - 33, - 34]
   \<and> base_leftover (- 100) [1, 1, 1] = - 1
   \<and> allocate (- 100) [''1'', ''1'', ''1''] = Inr [- 33, - 33, - 33]"
  by code_simp

text \<open>
  C1, evaluated on the code. With the amount -100 and the ratios 1, 1, 1 each truncated
  share is -33, the leftover is -1, the loop that hands out the leftover does not run,
  and the parts sum to -99.
\<close>

theorem allocate_negative_amount:
  "allocate (- 100) [''1'', ''1'', ''1''] = Inr [- 33, - 33, - 33]
   \<and> sum_list [- 33, - 33, - 33 :: int] \<noteq> - 100"
  by code_simp

end
